theory Spec2Isabelle
  imports Main
begin

section \<open>Python strings\<close>

text \<open>
  A Python \<open>str\<close> is a sequence of Unicode code points; iterating over it yields one
  code point at a time and \<open>len\<close> counts code points. A code point is modelled as a
  natural number and a string as a list of them. String literals of the source are written
  with \<open>str\<close>, which reads an ASCII literal as its code points.
\<close>

type_synonym codepoint = nat
type_synonym pystr = "codepoint list"

definition str :: "string \<Rightarrow> pystr" where
  "str s = map of_char s"

datatype error = IndexError

subsection \<open>The character database\<close>

text \<open>
  \<open>str.isalpha\<close>, \<open>str.isupper\<close>, \<open>str.islower\<close>, \<open>str.lower\<close> and \<open>str.upper\<close> are
  built-ins of the interpreter, driven by the Unicode character database. Their behaviour
  on ASCII (code points below 128) is written out below; their behaviour on every other code
  point is a parameter of the model, a record of the five tables. \<open>lower\<close> and \<open>upper\<close> map
  one character to a string, since a case mapping may expand (\<open>'\<ss>'.upper()\<close> is \<open>'SS'\<close>).
\<close>

record ucd =
  uc_isalpha :: "codepoint \<Rightarrow> bool"
  uc_isupper :: "codepoint \<Rightarrow> bool"
  uc_islower :: "codepoint \<Rightarrow> bool"
  uc_lower :: "codepoint \<Rightarrow> pystr"
  uc_upper :: "codepoint \<Rightarrow> pystr"

definition ascii_upper_letter :: "codepoint \<Rightarrow> bool" where
  "ascii_upper_letter c = (65 \<le> c \<and> c \<le> 90)"

definition ascii_lower_letter :: "codepoint \<Rightarrow> bool" where
  "ascii_lower_letter c = (97 \<le> c \<and> c \<le> 122)"

definition ascii_letter :: "codepoint \<Rightarrow> bool" where
  "ascii_letter c = (ascii_upper_letter c \<or> ascii_lower_letter c)"

definition py_isalpha :: "ucd \<Rightarrow> codepoint \<Rightarrow> bool" where
  "py_isalpha U c = (if c < 128 then ascii_letter c else uc_isalpha U c)"

definition py_isupper :: "ucd \<Rightarrow> codepoint \<Rightarrow> bool" where
  "py_isupper U c = (if c < 128 then ascii_upper_letter c else uc_isupper U c)"

definition py_islower :: "ucd \<Rightarrow> codepoint \<Rightarrow> bool" where
  "py_islower U c = (if c < 128 then ascii_lower_letter c else uc_islower U c)"

definition py_lower :: "ucd \<Rightarrow> codepoint \<Rightarrow> pystr" where
  "py_lower U c =
     (if c < 128 then [if ascii_upper_letter c then c + 32 else c] else uc_lower U c)"

definition py_upper :: "ucd \<Rightarrow> codepoint \<Rightarrow> pystr" where
  "py_upper U c =
     (if c < 128 then [if ascii_lower_letter c then c - 32 else c] else uc_upper U c)"

text \<open>
  One instance of the tables: the Latin-1 Supplement block (U+0080 to U+00FF) as the Unicode
  character database has it. Letters are U+00AA, U+00B5, U+00BA, U+00C0 to U+00D6,
  U+00D8 to U+00F6 and U+00F8 to U+00FF; the capitals end at U+00DE. Code points from
  U+0100 on are left as caseless non-letters, so this instance describes the interpreter on
  texts of code points below 256.
\<close>

definition latin1_isupper :: "codepoint \<Rightarrow> bool" where
  "latin1_isupper c = ((192 \<le> c \<and> c \<le> 214) \<or> (216 \<le> c \<and> c \<le> 222))"

definition latin1_islower :: "codepoint \<Rightarrow> bool" where
  "latin1_islower c =
     (c = 170 \<or> c = 181 \<or> c = 186 \<or> (223 \<le> c \<and> c \<le> 246) \<or> (248 \<le> c \<and> c \<le> 255))"

definition latin1_lower :: "codepoint \<Rightarrow> pystr" where
  "latin1_lower c = [if latin1_isupper c then c + 32 else c]"

definition latin1_upper :: "codepoint \<Rightarrow> pystr" where
  "latin1_upper c =
     (if c = 223 then [83, 83]
      else if c = 181 then [924]
      else if c = 255 then [376]
      else if (224 \<le> c \<and> c \<le> 246) \<or> (248 \<le> c \<and> c \<le> 254) then [c - 32]
      else [c])"

definition latin1 :: ucd where
  "latin1 = \<lparr> uc_isalpha = (\<lambda>c. latin1_isupper c \<or> latin1_islower c),
              uc_isupper = latin1_isupper,
              uc_islower = latin1_islower,
              uc_lower = latin1_lower,
              uc_upper = latin1_upper \<rparr>"

subsection \<open>Searching and indexing\<close>

text \<open>
  \<open>s.find(sub)\<close> is the lowest index at which \<open>sub\<close> occurs in \<open>s\<close> as a substring, and
  \<open>-1\<close> when it does not occur. The empty string occurs at every index, also at the end.
\<close>

fun find_from :: "pystr \<Rightarrow> pystr \<Rightarrow> int \<Rightarrow> int" where
  "find_from [] sub i = (if sub = [] then i else - 1)"
| "find_from (x # xs) sub i =
     (if take (length sub) (x # xs) = sub then i else find_from xs sub (i + 1))"

definition py_find :: "pystr \<Rightarrow> pystr \<Rightarrow> int" where
  "py_find s sub = find_from s sub 0"

text \<open>
  \<open>s[i]\<close>: a negative index counts from the end, and an index outside
  \<open>-len(s) \<le> i < len(s)\<close> raises \<open>IndexError\<close>.
\<close>

definition py_index :: "pystr \<Rightarrow> int \<Rightarrow> error + codepoint" where
  "py_index s i =
     (let n = int (length s); j = (if i < 0 then n + i else i)
      in if 0 \<le> j \<and> j < n then Inr (s ! nat j) else Inl IndexError)"

section \<open>The cipher\<close>

text \<open>\<open>string.ascii_lowercase\<close>, the value of the local \<open>alphabet\<close>.\<close>

definition ascii_lowercase :: pystr where
  "ascii_lowercase = str ''abcdefghijklmnopqrstuvwxyz''"

text \<open>
  The shift as the loop uses it: \<open>shift %= 26\<close> (Python's \<open>%\<close> takes the sign of the
  divisor, as \<open>mod\<close> on \<open>int\<close> does), then \<open>shift *= -1\<close> when the direction is the string
  \<open>'decode'\<close>.
\<close>

definition effective_shift :: "int \<Rightarrow> pystr \<Rightarrow> int" where
  "effective_shift shift direction =
     (let shift = shift mod 26
      in if direction = str ''decode'' then shift * (- 1) else shift)"

text \<open>
  The body of the \<open>for\<close> loop, for one character: the string appended to \<open>result_text\<close>,
  or the error raised.
\<close>

definition shift_char :: "ucd \<Rightarrow> int \<Rightarrow> codepoint \<Rightarrow> error + pystr" where
  "shift_char U shift char =
     (if py_isalpha U char then
        (let original_index = py_find ascii_lowercase (py_lower U char);
             new_index = (original_index + shift) mod 26
         in case py_index ascii_lowercase new_index of
              Inl e \<Rightarrow> Inl e
            | Inr new_char \<Rightarrow>
                if py_isupper U char then Inr (py_upper U new_char)
                else Inr [new_char])
      else Inr [char])"

text \<open>The loop over the text, with \<open>result_text\<close> as the accumulator.\<close>

fun cipher_loop :: "ucd \<Rightarrow> int \<Rightarrow> pystr \<Rightarrow> pystr \<Rightarrow> error + pystr" where
  "cipher_loop U shift [] result_text = Inr result_text"
| "cipher_loop U shift (char # text) result_text =
     (case shift_char U shift char of
        Inl e \<Rightarrow> Inl e
      | Inr s \<Rightarrow> cipher_loop U shift text (result_text @ s))"

definition caesar_cipher :: "ucd \<Rightarrow> pystr \<Rightarrow> int \<Rightarrow> pystr \<Rightarrow> error + pystr" where
  "caesar_cipher U text shift direction =
     cipher_loop U (effective_shift shift direction) text []"

section \<open>The shape of the result\<close>

text \<open>The alphabet holds the code points 97 to 122 in order.\<close>
lemma alphabet_upt: "ascii_lowercase = map (\<lambda>n. 97 + n) [0..<26]"
  by (simp add: ascii_lowercase_def str_def upt_rec)

lemma length_alphabet: "length ascii_lowercase = 26"
  by (simp add: alphabet_upt)

lemma alphabet_nth: "n < 26 \<Longrightarrow> ascii_lowercase ! n = 97 + n"
  by (simp add: alphabet_upt)

lemma index_alphabet:
  "py_index ascii_lowercase (x mod 26) = Inr (97 + nat (x mod 26))"
proof -
  have "0 \<le> x mod 26" "x mod 26 < 26" by simp_all
  then have "nat (x mod 26) < 26" by linarith
  then show ?thesis
    using \<open>0 \<le> x mod 26\<close> \<open>x mod 26 < 26\<close>
    by (simp add: py_index_def length_alphabet alphabet_nth Let_def)
qed

lemma upper_alphabet: "n < 26 \<Longrightarrow> py_upper U (97 + n) = [65 + n]"
  by (simp add: py_upper_def ascii_lower_letter_def)

lemma shift_char_alpha:
  assumes "py_isalpha U c"
  shows "shift_char U s c =
    Inr [(if py_isupper U c then 65 else 97)
         + nat ((py_find ascii_lowercase (py_lower U c) + s) mod 26)]"
proof -
  let ?x = "py_find ascii_lowercase (py_lower U c) + s"
  have "nat (?x mod 26) < 26" by simp
  then show ?thesis
    using assms by (simp add: shift_char_def index_alphabet upper_alphabet Let_def)
qed

lemma shift_char_other: "\<not> py_isalpha U c \<Longrightarrow> shift_char U s c = Inr [c]"
  by (simp add: shift_char_def)

lemma shift_char_single: "\<exists>d. shift_char U s c = Inr [d]"
  by (cases "py_isalpha U c") (simp_all add: shift_char_alpha shift_char_other)

lemma cipher_loop_shape:
  "\<exists>ys. cipher_loop U s T acc = Inr (acc @ ys) \<and> length ys = length T
        \<and> (\<forall>i<length T. shift_char U s (T ! i) = Inr [ys ! i])"
proof (induction T arbitrary: acc)
  case Nil
  then show ?case by simp
next
  case (Cons c T)
  obtain d where d: "shift_char U s c = Inr [d]"
    using shift_char_single by blast
  obtain ys where ys: "cipher_loop U s T (acc @ [d]) = Inr ((acc @ [d]) @ ys)"
    "length ys = length T" "\<forall>i<length T. shift_char U s (T ! i) = Inr [ys ! i]"
    using Cons.IH by blast
  have "\<forall>i<length (c # T). shift_char U s ((c # T) ! i) = Inr [(d # ys) ! i]"
    using d ys(3) by (simp add: nth_Cons split: nat.split)
  then show ?case
    using d ys(1,2) by (intro exI [of _ "d # ys"]) simp
qed

lemma caesar_cipher_shape:
  "\<exists>out. caesar_cipher U T k d = Inr out \<and> length out = length T
        \<and> (\<forall>i<length T. shift_char U (effective_shift k d) (T ! i) = Inr [out ! i])"
  using cipher_loop_shape [of U "effective_shift k d" T "[]"]
  by (simp add: caesar_cipher_def)

lemma shift_char_mod: "shift_char U (s mod 26) c = shift_char U s c"
  by (simp add: shift_char_def mod_add_right_eq)

lemma cipher_loop_mod: "cipher_loop U (s mod 26) T acc = cipher_loop U s T acc"
  by (induction T arbitrary: acc) (simp_all add: shift_char_mod split: sum.split)

lemma upper_letter_cased:
  "n < 26 \<Longrightarrow> py_isupper U (65 + n) \<and> \<not> py_islower U (65 + n)"
  by (simp add: py_isupper_def py_islower_def ascii_upper_letter_def ascii_lower_letter_def)

lemma lower_letter_cased:
  "n < 26 \<Longrightarrow> py_islower U (97 + n) \<and> \<not> py_isupper U (97 + n)"
  by (simp add: py_isupper_def py_islower_def ascii_upper_letter_def ascii_lower_letter_def)

lemma shift_char_case:
  assumes "py_isalpha U c" and "shift_char U s c = Inr [x]"
  shows "(py_isupper U c \<longrightarrow> py_isupper U x \<and> \<not> py_islower U x)
       \<and> (\<not> py_isupper U c \<longrightarrow> py_islower U x \<and> \<not> py_isupper U x)"
proof -
  let ?n = "nat ((py_find ascii_lowercase (py_lower U c) + s) mod 26)"
  have n: "?n < 26" by simp
  from assms have "x = (if py_isupper U c then 65 else 97) + ?n"
    by (simp add: shift_char_alpha)
  then show ?thesis
    using upper_letter_cased [OF n, of U] lower_letter_cased [OF n, of U] by simp
qed

section \<open>Texts whose letters are all in the alphabet\<close>

text \<open>
  \<open>find\<close> returns the position of a letter of the alphabet and \<open>-1\<close> for any other
  single character. For the 52 ASCII letters the loop body is therefore a rotation of the
  position, which the opposite shift undoes: on a text whose alphabetic characters are all
  ASCII letters, decoding what was encoded gives the text back, and shift 0 changes nothing.
\<close>

lemma find_from_absent:
  "x \<notin> set xs \<Longrightarrow> find_from xs [x] i = - 1"
  by (induction xs arbitrary: i) auto

lemma find_from_present:
  "distinct xs \<Longrightarrow> n < length xs \<Longrightarrow> find_from xs [xs ! n] i = i + int n"
proof (induction xs arbitrary: i n)
  case Nil
  then show ?case by simp
next
  case (Cons a xs)
  show ?case
  proof (cases n)
    case 0
    then show ?thesis by simp
  next
    case (Suc m)
    with Cons.prems have m: "m < length xs" and d: "distinct xs" and "a \<notin> set xs"
      by simp_all
    then have "xs ! m \<noteq> a" using nth_mem by metis
    with Cons.IH [OF d m, of "i + 1"] Suc show ?thesis by simp
  qed
qed

lemma distinct_alphabet: "distinct ascii_lowercase"
  by (simp add: alphabet_upt distinct_map)

lemma find_alphabet: "n < 26 \<Longrightarrow> py_find ascii_lowercase [97 + n] = int n"
  using find_from_present [of ascii_lowercase n 0]
  by (simp add: py_find_def distinct_alphabet length_alphabet alphabet_nth)

lemma lower_ascii_letter:
  "ascii_letter c \<Longrightarrow> \<exists>n<26. py_lower U c = [97 + n] \<and> c = (if py_isupper U c then 65 else 97) + n"
proof -
  assume a: "ascii_letter c"
  show ?thesis
  proof (cases "ascii_upper_letter c")
    case True
    then have "c - 65 < 26" "py_lower U c = [97 + (c - 65)]" "py_isupper U c" "c = 65 + (c - 65)"
      by (auto simp add: ascii_upper_letter_def py_lower_def py_isupper_def)
    then show ?thesis by (intro exI [of _ "c - 65"]) simp
  next
    case False
    with a have l: "ascii_lower_letter c" by (simp add: ascii_letter_def)
    then have "c - 97 < 26" "py_lower U c = [97 + (c - 97)]" "\<not> py_isupper U c" "c = 97 + (c - 97)"
      by (auto simp add: ascii_lower_letter_def ascii_upper_letter_def py_lower_def py_isupper_def)
    then show ?thesis by (intro exI [of _ "c - 97"]) simp
  qed
qed

lemma ascii_letter_alpha: "ascii_letter c \<Longrightarrow> py_isalpha U c"
  by (auto simp add: py_isalpha_def ascii_letter_def ascii_upper_letter_def ascii_lower_letter_def)

lemma shift_char_letter:
  assumes "ascii_letter c"
  shows "\<exists>n<26. c = (if py_isupper U c then 65 else 97) + n
     \<and> shift_char U s c = Inr [(if py_isupper U c then 65 else 97) + nat ((int n + s) mod 26)]"
proof -
  obtain n where n: "n < 26" "py_lower U c = [97 + n]"
    "c = (if py_isupper U c then 65 else 97) + n"
    using lower_ascii_letter [OF assms, of U] by blast
  have "shift_char U s c = Inr [(if py_isupper U c then 65 else 97) + nat ((int n + s) mod 26)]"
    using n(1,2) by (simp add: shift_char_alpha [OF ascii_letter_alpha [OF assms]] find_alphabet)
  with n show ?thesis by blast
qed

lemma letter_of_position:
  "n < 26 \<Longrightarrow> ascii_letter (65 + n) \<and> ascii_letter (97 + n)"
  by (simp add: ascii_letter_def ascii_upper_letter_def ascii_lower_letter_def)

lemma shift_char_back:
  assumes "py_isalpha U c \<longrightarrow> ascii_letter c" and "shift_char U s c = Inr [x]"
  shows "shift_char U (- s) x = Inr [c]"
proof (cases "py_isalpha U c")
  case False
  with assms(2) have "x = c" by (simp add: shift_char_other)
  with False show ?thesis by (simp add: shift_char_other)
next
  case True
  with assms(1) have l: "ascii_letter c" by simp
  let ?b = "(if py_isupper U c then 65 else 97) :: nat"
  obtain n where n: "n < 26" "c = ?b + n"
    "shift_char U s c = Inr [?b + nat ((int n + s) mod 26)]"
    using shift_char_letter [OF l, of U s] by blast
  let ?m = "nat ((int n + s) mod 26)"
  have m: "?m < 26" by simp
  from n(3) assms(2) have x: "x = ?b + ?m" by simp
  have lx: "ascii_letter x" using letter_of_position [OF m] x by simp
  have ux: "py_isupper U x = py_isupper U c"
    using upper_letter_cased [OF m, of U] lower_letter_cased [OF m, of U] x by simp
  obtain k where k: "k < 26" "x = ?b + k"
    "shift_char U (- s) x = Inr [?b + nat ((int k - s) mod 26)]"
    using shift_char_letter [OF lx, of U "- s"] ux by auto
  from k(2) x have "k = ?m" by simp
  then have "(int k - s) mod 26 = ((int n + s) mod 26 - s) mod 26" by simp
  also have "\<dots> = int n mod 26" by (simp add: mod_diff_left_eq)
  also have "\<dots> = int n" using n(1) by simp
  finally have "nat ((int k - s) mod 26) = n" by simp
  with k(3) n(2) show ?thesis by simp
qed


lemma shift_char_zero:
  assumes "py_isalpha U c \<longrightarrow> ascii_letter c"
  shows "shift_char U 0 c = Inr [c]"
proof (cases "py_isalpha U c")
  case False
  then show ?thesis by (simp add: shift_char_other)
next
  case True
  with assms have l: "ascii_letter c" by simp
  obtain n where n: "n < 26" "c = (if py_isupper U c then 65 else 97) + n"
    "shift_char U 0 c = Inr [(if py_isupper U c then 65 else 97) + nat ((int n + 0) mod 26)]"
    using shift_char_letter [OF l, of U 0] by blast
  from n(1) have "nat ((int n + 0) mod 26) = n" by simp
  with n(2,3) show ?thesis by simp
qed

lemma zero_shift_identity_latin:
  assumes "\<forall>c\<in>set T. py_isalpha U c \<longrightarrow> ascii_letter c"
  shows "caesar_cipher U T 0 (str ''encode'') = Inr T"
proof -
  have ne: "str ''encode'' \<noteq> str ''decode''" by (simp add: str_def)
  then have e: "effective_shift 0 (str ''encode'') = 0" by (simp add: effective_shift_def)
  obtain out where o: "caesar_cipher U T 0 (str ''encode'') = Inr out" "length out = length T"
    "\<forall>i<length T. shift_char U 0 (T ! i) = Inr [out ! i]"
    using caesar_cipher_shape [of U T 0 "str ''encode''"] e by auto
  have "out ! i = T ! i" if "i < length T" for i
  proof -
    from that assms have "py_isalpha U (T ! i) \<longrightarrow> ascii_letter (T ! i)" by simp
    from shift_char_zero [OF this] o(3) that show ?thesis by simp
  qed
  with o(2) have "out = T" by (simp add: nth_equalityI)
  with o(1) show ?thesis by simp
qed

lemma roundtrip_latin:
  assumes "\<forall>c\<in>set T. py_isalpha U c \<longrightarrow> ascii_letter c"
    and "caesar_cipher U T k (str ''encode'') = Inr C"
  shows "caesar_cipher U C k (str ''decode'') = Inr T"
proof -
  have ne: "str ''encode'' \<noteq> str ''decode''" by (simp add: str_def)
  let ?s = "k mod 26"
  have e: "effective_shift k (str ''encode'') = ?s"
    and d: "effective_shift k (str ''decode'') = - ?s"
    using ne by (simp_all add: effective_shift_def)
  obtain C' where c: "caesar_cipher U T k (str ''encode'') = Inr C'" "length C' = length T"
    "\<forall>i<length T. shift_char U ?s (T ! i) = Inr [C' ! i]"
    using caesar_cipher_shape [of U T k "str ''encode''"] e by auto
  from c(1) assms(2) have cc: "C' = C" by simp
  obtain out where o: "caesar_cipher U C k (str ''decode'') = Inr out" "length out = length C"
    "\<forall>i<length C. shift_char U (- ?s) (C ! i) = Inr [out ! i]"
    using caesar_cipher_shape [of U C k "str ''decode''"] d by auto
  have "out ! i = T ! i" if "i < length T" for i
  proof -
    from that assms(1) have a: "py_isalpha U (T ! i) \<longrightarrow> ascii_letter (T ! i)" by simp
    from c(3) cc that have "shift_char U ?s (T ! i) = Inr [C ! i]" by simp
    from shift_char_back [OF a this] o(3) c(2) cc that show ?thesis by simp
  qed
  with o(2) c(2) cc have "out = T" by (simp add: nth_equalityI)
  with o(1) show ?thesis by simp
qed

section \<open>Properties that hold for every text\<close>

text \<open>
  C3. For every text, every integer shift and every direction, the cipher returns a text
  with as many characters as its input; this holds whatever the character tables say
  beyond ASCII.
\<close>

theorem length_preserved:
  "\<exists>out. caesar_cipher U T k d = Inr out \<and> length out = length T"
  using caesar_cipher_shape [of U T k d] by blast

text \<open>
  C4. A character of the text for which \<open>isalpha\<close> is false (a digit, a punctuation
  mark, a space) stands unchanged at the same position of the output, for every shift
  and every direction.
\<close>

theorem non_alpha_passthrough:
  assumes "caesar_cipher U T k d = Inr out" and "i < length T"
    and "\<not> py_isalpha U (T ! i)"
  shows "out ! i = T ! i"
proof -
  obtain out' where o: "caesar_cipher U T k d = Inr out'"
    "\<forall>i<length T. shift_char U (effective_shift k d) (T ! i) = Inr [out' ! i]"
    using caesar_cipher_shape [of U T k d] by blast
  from o(1) assms(1) have "out' = out" by simp
  with o(2) assms(2) have "shift_char U (effective_shift k d) (T ! i) = Inr [out ! i]"
    by blast
  with assms(3) show ?thesis by (simp add: shift_char_other)
qed

theorem non_alpha_passthrough_witness:
  "caesar_cipher latin1 (str ''a1'') 3 (str ''encode'') = Inr (str ''d1'')
   \<and> (1::nat) < length (str ''a1'') \<and> \<not> py_isalpha latin1 (str ''a1'' ! 1)
   \<and> str ''d1'' ! 1 = str ''a1'' ! 1"
proof -
  have h1: "caesar_cipher latin1 (str ''a1'') 3 (str ''encode'') = Inr (str ''d1'')"
    by code_simp
  have h2: "(1::nat) < length (str ''a1'')" by (simp add: str_def)
  have h3: "\<not> py_isalpha latin1 (str ''a1'' ! 1)" by code_simp
  from non_alpha_passthrough [OF h1 h2 h3] h1 h2 h3 show ?thesis by blast
qed

text \<open>
  C5. At the position of an alphabetic character the output has a character of the same
  case: an uppercase letter (one for which \<open>isupper\<close> holds) yields an uppercase letter,
  and a letter that is not uppercase yields a lowercase letter (one for which \<open>islower\<close>
  holds). No character of the Unicode tables is both uppercase and lowercase, so the second
  half covers every lowercase letter; it also covers the letters that have no case.
\<close>

theorem case_preserved:
  assumes "caesar_cipher U T k d = Inr out" and "i < length T"
    and "py_isalpha U (T ! i)"
  shows "(py_isupper U (T ! i) \<longrightarrow> py_isupper U (out ! i))
       \<and> (\<not> py_isupper U (T ! i) \<longrightarrow> py_islower U (out ! i))"
proof -
  obtain out' where o: "caesar_cipher U T k d = Inr out'"
    "\<forall>i<length T. shift_char U (effective_shift k d) (T ! i) = Inr [out' ! i]"
    using caesar_cipher_shape [of U T k d] by blast
  from o(1) assms(1) have "out' = out" by simp
  with o(2) assms(2) have "shift_char U (effective_shift k d) (T ! i) = Inr [out ! i]"
    by blast
  from shift_char_case [OF assms(3) this] show ?thesis by blast
qed

theorem case_preserved_witness:
  "caesar_cipher latin1 (str ''Ab'') 3 (str ''encode'') = Inr (str ''De'')
   \<and> (0::nat) < length (str ''Ab'') \<and> py_isalpha latin1 (str ''Ab'' ! 0)
   \<and> py_isupper latin1 (str ''Ab'' ! 0) \<and> py_isupper latin1 (str ''De'' ! 0)
   \<and> (1::nat) < length (str ''Ab'') \<and> py_isalpha latin1 (str ''Ab'' ! 1)
   \<and> \<not> py_isupper latin1 (str ''Ab'' ! 1) \<and> py_islower latin1 (str ''Ab'' ! 1)
   \<and> py_islower latin1 (str ''De'' ! 1)"
proof -
  have h1: "caesar_cipher latin1 (str ''Ab'') 3 (str ''encode'') = Inr (str ''De'')"
    by code_simp
  have h2: "(0::nat) < length (str ''Ab'')" and h2': "(1::nat) < length (str ''Ab'')"
    by (simp_all add: str_def)
  have h3: "py_isalpha latin1 (str ''Ab'' ! 0)" and h3': "py_isalpha latin1 (str ''Ab'' ! 1)"
    by code_simp+
  have u: "py_isupper latin1 (str ''Ab'' ! 0)" and l: "\<not> py_isupper latin1 (str ''Ab'' ! 1)"
    and l': "py_islower latin1 (str ''Ab'' ! 1)"
    by code_simp+
  from case_preserved [OF h1 h2 h3] case_preserved [OF h1 h2' h3'] h1 h2 h2' h3 h3' u l l'
  show ?thesis by blast
qed

text \<open>
  C6. The shift is reduced with the floor modulo: for a negative shift \<open>k\<close> the
  shift used when encoding lies in \<open>[0, 26)\<close> and differs from \<open>k\<close> by a multiple of
  26, encoding with \<open>k\<close> is encoding with that reduced shift, and \<open>'abc'\<close> encoded with
  \<open>-2\<close> is \<open>'yza'\<close>.
\<close>

theorem floor_modulo:
  assumes "k < 0"
  shows "0 \<le> effective_shift k (str ''encode'') \<and> effective_shift k (str ''encode'') < 26
       \<and> (\<exists>q. k = 26 * q + effective_shift k (str ''encode''))
       \<and> caesar_cipher U T k (str ''encode'')
           = caesar_cipher U T (effective_shift k (str ''encode'')) (str ''encode'')
       \<and> caesar_cipher U (str ''abc'') (- 2) (str ''encode'') = Inr (str ''yza'')"
proof -
  have ne: "str ''encode'' \<noteq> str ''decode''" by (simp add: str_def)
  then have e: "effective_shift k (str ''encode'') = k mod 26"
    by (simp add: effective_shift_def)
  have "k = 26 * (k div 26) + k mod 26" by simp
  then have q: "\<exists>q. k = 26 * q + k mod 26" by blast
  have ex: "caesar_cipher U (str ''abc'') (- 2) (str ''encode'') = Inr (str ''yza'')"
    by (simp add: caesar_cipher_def effective_shift_def str_def shift_char_def
        py_isalpha_def py_isupper_def py_lower_def ascii_letter_def ascii_upper_letter_def
        ascii_lower_letter_def py_find_def ascii_lowercase_def py_index_def)
  show ?thesis
    using q ex ne by (simp add: e caesar_cipher_def effective_shift_def)
qed

theorem floor_modulo_witness:
  "(- 2 :: int) < 0 \<and> effective_shift (- 2) (str ''encode'') = 24
   \<and> caesar_cipher latin1 (str ''abc'') (- 2) (str ''encode'') = Inr (str ''yza'')"
proof -
  have h: "(- 2 :: int) < 0" by simp
  have e: "effective_shift (- 2) (str ''encode'') = 24" by code_simp
  from floor_modulo [OF h, of latin1 "[]"] h e show ?thesis by blast
qed

text \<open>
  C7. Encoding with shift \<open>k\<close> and encoding with shift \<open>k + 26\<close> give the same result,
  for every text and every integer \<open>k\<close>.
\<close>

theorem shift_periodic:
  "caesar_cipher U T k (str ''encode'') = caesar_cipher U T (k + 26) (str ''encode'')"
  by (simp add: caesar_cipher_def effective_shift_def)

text \<open>
  C9. The cipher returns a string for every text, every integer shift and every direction:
  the index into the alphabet is always in range, so the \<open>IndexError\<close> branch is never
  taken.
\<close>

theorem never_fails: "\<exists>out. caesar_cipher U T k d = Inr out"
  using caesar_cipher_shape [of U T k d] by blast

text \<open>
  C10. The direction is compared with the string \<open>'decode'\<close> only: every other
  direction gives the result of \<open>'encode'\<close>, and decoding with shift \<open>k\<close> is encoding
  with shift \<open>-k\<close>.
\<close>

theorem direction_only_decode:
  "(d \<noteq> str ''decode'' \<longrightarrow> caesar_cipher U T k d = caesar_cipher U T k (str ''encode''))
   \<and> caesar_cipher U T k (str ''decode'') = caesar_cipher U T (- k) (str ''encode'')"
proof -
  have ne: "str ''encode'' \<noteq> str ''decode''" by (simp add: str_def)
  have "cipher_loop U (- (k mod 26)) T [] = cipher_loop U ((- (k mod 26)) mod 26) T []"
    by (simp add: cipher_loop_mod)
  also have "(- (k mod 26)) mod 26 = (- k) mod 26"
    by (simp add: mod_minus_eq)
  finally have "caesar_cipher U T k (str ''decode'') = caesar_cipher U T (- k) (str ''encode'')"
    using ne by (simp add: caesar_cipher_def effective_shift_def)
  then show ?thesis
    using ne by (simp add: caesar_cipher_def effective_shift_def)
qed

theorem direction_only_decode_witness:
  "str ''DECODE'' \<noteq> str ''decode''
   \<and> caesar_cipher latin1 (str ''abc'') 3 (str ''DECODE'')
       = caesar_cipher latin1 (str ''abc'') 3 (str ''encode'')
   \<and> caesar_cipher latin1 (str ''abc'') 3 (str ''DECODE'') = Inr (str ''def'')"
proof -
  have h: "str ''DECODE'' \<noteq> str ''decode''" by (simp add: str_def)
  have v: "caesar_cipher latin1 (str ''abc'') 3 (str ''encode'') = Inr (str ''def'')"
    by code_simp
  from direction_only_decode [of "str ''DECODE''" latin1 "str ''abc''" 3] h v
  show ?thesis by simp
qed

section \<open>Letters outside the alphabet\<close>

text \<open>
  \<open>isalpha\<close> holds of letters of every script, while \<open>alphabet.find\<close> knows the 26
  lowercase ASCII letters only. For any other letter \<open>find\<close> returns \<open>-1\<close>, and the loop
  body goes on with \<open>-1\<close> as if it were a position: the letter is replaced by the letter of
  the alphabet at \<open>(shift - 1) % 26\<close>.
\<close>

lemma shift_char_not_found:
  assumes "py_isalpha U c" and "py_find ascii_lowercase (py_lower U c) = - 1"
  shows "shift_char U s c =
    Inr [(if py_isupper U c then 65 else 97) + nat ((s - 1) mod 26)]"
proof -
  have "(- 1 + s) mod 26 = (s - 1) mod 26" by (simp add: algebra_simps)
  with assms show ?thesis by (simp add: shift_char_alpha)
qed

text \<open>
  C1. Decoding an encoded text does not give the text back when it holds a letter outside
  the alphabet: with shift 3, U+00E9 (e with acute accent) is encoded as \<open>'c'\<close>, and
  \<open>'c'\<close> is decoded as \<open>'z'\<close>.
\<close>

theorem roundtrip_breaks_on_e_acute:
  "caesar_cipher latin1 [233] 3 (str ''encode'') = Inr (str ''c'')
   \<and> caesar_cipher latin1 (str ''c'') 3 (str ''decode'') = Inr (str ''z'')"
  by code_simp

text \<open>
  C2. A letter outside the alphabet is not left unchanged at its position: U+00F1 (n with
  tilde) is alphabetic and no ASCII letter, and with shift 1 the five characters
  s, e, U+00F1, o, r are encoded as \<open>'tfaps'\<close>, the third one as \<open>'a'\<close>.
\<close>

theorem non_latin_letter_replaced:
  "py_isalpha latin1 241 \<and> \<not> ascii_letter 241
   \<and> caesar_cipher latin1 (str ''se'' @ [241] @ str ''or'') 1 (str ''encode'')
       = Inr (str ''tfaps'')"
  by code_simp

text \<open>
  C8. With shift 0 the text U+00E9 is encoded as \<open>'z'\<close>, so a zero shift is not the
  identity on every text; \<open>'abc'\<close> with shift 0 stays \<open>'abc'\<close> and the empty text with
  shift 5 stays empty.
\<close>

theorem zero_shift_changes_e_acute:
  "caesar_cipher latin1 [233] 0 (str ''encode'') = Inr (str ''z'')
   \<and> caesar_cipher latin1 (str ''abc'') 0 (str ''encode'') = Inr (str ''abc'')
   \<and> caesar_cipher latin1 [] 5 (str ''encode'') = Inr []"
  by code_simp

end
